theory Spec2Isabelle
  imports Main "HOL-Library.AList"
begin

section \<open>Path patterns and locations\<close>

text \<open>
  A URI pattern (\<open>Uri_t\<close>) is a tuple whose components are either plain strings or
  \<open>FlexibleLocation\<close> objects. A Python \<open>str\<close> is modelled as the list of its
  characters (\<open>string\<close>).
\<close>

text \<open>
  Modelled from the spec: \<open>bamboo/location.py\<close> (the class \<open>FlexibleLocation\<close> and its
  subclasses) is not among the sources. The two required variants of section 4.2 are the
  any-string locator and the ASCII-digit locator of fixed length.
\<close>

datatype flexible_location = AnyStringLocation | AsciiDigitLocation nat

datatype location = Lit string | Flex flexible_location

type_synonym uri_t = "location list"

definition is_ascii_digit :: "char \<Rightarrow> bool" where
  "is_ascii_digit c = (c \<in> set ''0123456789'')"

text \<open>
  Modelled from the spec: \<open>FlexibleLocation.is_valid\<close> is not among the sources. The
  any-string locator accepts any non-empty segment; the digit locator of length \<open>n\<close> accepts
  a segment iff it has exactly \<open>n\<close> characters, all of them ASCII digits.
\<close>

fun is_valid :: "flexible_location \<Rightarrow> string \<Rightarrow> bool" where
  "is_valid AnyStringLocation seg = (seg \<noteq> [])"
| "is_valid (AsciiDigitLocation n) seg = (length seg = n \<and> list_all is_ascii_digit seg)"

fun is_flexible :: "location \<Rightarrow> bool" where
  "is_flexible (Flex f) = True"
| "is_flexible (Lit s) = False"

text \<open>
  Modelled from the spec: \<open>is_flexible_uri\<close> is not among the sources. A pattern is
  flexible if it contains any flexible segment.
\<close>

definition is_flexible_uri :: "uri_t \<Rightarrow> bool" where
  "is_flexible_uri uri = list_ex is_flexible uri"

text \<open>
  Modelled from the spec: \<open>is_duplicated_uri\<close> is not among the sources. Two patterns of
  equal segment count are ambiguous if at every position the literals are equal or at least
  one side is a flexible locator; patterns of different segment count are not compared.
\<close>

fun locations_collide :: "location \<Rightarrow> location \<Rightarrow> bool" where
  "locations_collide (Lit a) (Lit b) = (a = b)"
| "locations_collide _ _ = True"

definition is_duplicated_uri :: "uri_t \<Rightarrow> uri_t \<Rightarrow> bool" where
  "is_duplicated_uri uri1 uri2 =
     (length uri1 = length uri2 \<and> list_all2 locations_collide uri1 uri2)"

section \<open>The router\<close>

text \<open>
  \<open>Router.uri2endpoint\<close> is a dict; it is modelled as an association list in insertion
  order: \<open>map_of\<close> is \<open>dict.get\<close>, \<open>map fst\<close> is \<open>dict.keys()\<close>, and \<open>AList.update\<close> is
  item assignment (an existing key keeps its place, a new key goes to the end).
  Endpoints are classes; they are compared by identity and every class is truthy, so
  the handler type is left abstract.
\<close>

record 'h router =
  uri2endpoint :: "(uri_t \<times> 'h) list"
  uris_flexible :: "uri_t list"

definition Router_init :: "'h router" where
  "Router_init = \<lparr>uri2endpoint = [], uris_flexible = []\<rparr>"

datatype router_error = DuplicatedUriRegisteredError

text \<open>The loop of \<open>register\<close> over the registered keys: true iff it raises.\<close>

fun detect_duplicated :: "uri_t list \<Rightarrow> uri_t \<Rightarrow> bool" where
  "detect_duplicated [] uri = False"
| "detect_duplicated (uri_registered # rest) uri =
     (if is_duplicated_uri uri_registered uri then True else detect_duplicated rest uri)"

text \<open>
  \<open>register\<close> returns the outcome of the call together with the router after it; when
  the exception is raised nothing has been assigned yet.
\<close>

definition register :: "'h router \<Rightarrow> uri_t \<Rightarrow> 'h \<Rightarrow> (router_error + unit) \<times> 'h router" where
  "register r uri endpoint =
     (if detect_duplicated (map fst (uri2endpoint r)) uri
      then (Inl DuplicatedUriRegisteredError, r)
      else (Inr (),
            \<lparr>uri2endpoint = AList.update uri endpoint (uri2endpoint r),
             uris_flexible = (if is_flexible_uri uri then uris_flexible r @ [uri]
                              else uris_flexible r)\<rparr>))"

text \<open>
  \<open>str.split(sep)\<close> for a one-character separator. The result is never empty, so the
  last branch of the case is never taken.
\<close>

fun split_sep :: "char \<Rightarrow> string \<Rightarrow> string list" where
  "split_sep sep [] = [[]]"
| "split_sep sep (c # cs) =
     (if c = sep then [] # split_sep sep cs
      else (case split_sep sep cs of
              w # ws \<Rightarrow> (c # w) # ws
            | [] \<Rightarrow> [[c]]))"

text \<open>\<open>tuple(uri[1:].split("/"))\<close>\<close>

definition path_segments :: "string \<Rightarrow> string list" where
  "path_segments uri = split_sep CHR ''/'' (drop 1 uri)"

text \<open>
  The inner loop of \<open>validate\<close> over \<open>zip(uri, flexible)\<close>: true iff the loop ends
  without \<open>break\<close>. A string never equals a \<open>FlexibleLocation\<close> object, so
  \<open>loc_req == loc_flex\<close> is \<open>Lit loc_req = loc_flex\<close>.
\<close>

fun judge_locations :: "string list \<Rightarrow> uri_t \<Rightarrow> bool" where
  "judge_locations (loc_req # reqs) (loc_flex # flexs) =
     (if Lit loc_req = loc_flex then judge_locations reqs flexs
      else (case loc_flex of
              Flex f \<Rightarrow> (if \<not> is_valid f loc_req then False else judge_locations reqs flexs)
            | Lit s \<Rightarrow> judge_locations reqs flexs))"
| "judge_locations _ _ = True"

text \<open>The outer loop of \<open>validate\<close> over \<open>self.uris_flexible\<close>.\<close>

fun scan_flexible :: "(uri_t \<times> 'h) list \<Rightarrow> string list \<Rightarrow> uri_t list \<Rightarrow> 'h option" where
  "scan_flexible table uri [] = None"
| "scan_flexible table uri (flexible # rest) =
     (if length flexible \<noteq> length uri then scan_flexible table uri rest
      else if judge_locations uri flexible then map_of table flexible
      else scan_flexible table uri rest)"

definition validate :: "'h router \<Rightarrow> string \<Rightarrow> 'h option" where
  "validate r path =
     (let uri = path_segments path in
      case map_of (uri2endpoint r) (map Lit uri) of
        Some endpoint \<Rightarrow> Some endpoint
      | None \<Rightarrow> scan_flexible (uri2endpoint r) uri (uris_flexible r))"

definition search_uris :: "'h router \<Rightarrow> 'h \<Rightarrow> uri_t list" where
  "search_uris r endpoint = map fst (filter (\<lambda>(uri, point). point = endpoint) (uri2endpoint r))"

text \<open>
  The calls a client can make on a router. Only \<open>register\<close> assigns to the
  attributes of the router; \<open>validate\<close> and \<open>search_uris\<close> only read them.
\<close>

datatype 'h call = Register uri_t 'h | Validate string | SearchUris 'h

fun step :: "'h router \<Rightarrow> 'h call \<Rightarrow> 'h router" where
  "step r (Register uri endpoint) = snd (register r uri endpoint)"
| "step r (Validate path) = r"
| "step r (SearchUris endpoint) = r"

definition run :: "'h call list \<Rightarrow> 'h router" where
  "run calls = foldl step Router_init calls"

section \<open>The routing tests\<close>

text \<open>
  The patterns of \<open>TestRouting.test_duplicated_uris\<close>; \<open>StringLocation()\<close> is the
  any-string locator and \<open>NumLocation(4)\<close> the digit locator of length 4.
\<close>

definition PATTERNS_1 :: "uri_t list" where
  "PATTERNS_1 = [[Lit ''test'', Lit ''hoge'', Flex AnyStringLocation],
                 [Lit ''test'', Lit ''hoge'', Lit ''image'']]"

definition PATTERNS_2 :: "uri_t list" where
  "PATTERNS_2 = [[Flex AnyStringLocation, Flex (AsciiDigitLocation 4)],
                 [Lit ''hoge'', Lit ''hoge'']]"

definition PATTERNS_3 :: "uri_t list" where
  "PATTERNS_3 = [[Flex AnyStringLocation, Lit ''test'', Flex AnyStringLocation],
                 [Lit ''hoge'', Flex AnyStringLocation, Lit ''image'']]"

text \<open>
  \<open>_test_duplicated_uris\<close>: registering the patterns in sequence on a fresh router
  raises \<open>DuplicatedUriRegisteredError\<close>.
\<close>

fun register_all :: "'h router \<Rightarrow> uri_t list \<Rightarrow> 'h \<Rightarrow> (router_error + unit) \<times> 'h router" where
  "register_all r [] endpoint = (Inr (), r)"
| "register_all r (uri # rest) endpoint =
     (case register r uri endpoint of
        (Inl e, r') \<Rightarrow> (Inl e, r')
      | (Inr u, r') \<Rightarrow> register_all r' rest endpoint)"

section \<open>The binding engine\<close>

text \<open>The generic value tree that the decoder of the wire format produces.\<close>

datatype json =
    JNull | JBool bool | JInt int | JFloat int int | JString string
  | JArray "json list" | JObject "(string \<times> json) list"

datatype scalar_type = TString | TInteger | TFloat | TBoolean

text \<open>The bound object: typed values, nested objects and ordered sequences of them.\<close>

datatype bound =
    VNone | VBool bool | VInt int | VFloat int int | VString string
  | VList "bound list" | VObject "(string \<times> bound) list"

text \<open>
  The schema descriptor of section 4.3: a field is a scalar, a nested object or an ordered
  collection of nested objects, and is either required or optional; an optional field
  always carries its default.
\<close>

datatype kind =
    Scalar scalar_type
  | Nested "(string \<times> field_spec) list"
  | ListOfNested "(string \<times> field_spec) list"
and field_spec = Required kind | Optional kind bound

type_synonym descriptor = "(string \<times> field_spec) list"

datatype value_kind = KNull | KBoolean | KInteger | KFloat | KString | KArray | KObject

text \<open>The four failure kinds of section 7, each with the field path.\<close>

datatype failure_kind =
    MalformedInput | MissingField | TypeMismatch value_kind value_kind | NestedFailure

datatype validation_failure = ValidationFailure failure_kind "string list"

fun kind_of :: "json \<Rightarrow> value_kind" where
  "kind_of JNull = KNull"
| "kind_of (JBool b) = KBoolean"
| "kind_of (JInt i) = KInteger"
| "kind_of (JFloat m e) = KFloat"
| "kind_of (JString s) = KString"
| "kind_of (JArray vs) = KArray"
| "kind_of (JObject obj) = KObject"

fun expected_kind :: "scalar_type \<Rightarrow> value_kind" where
  "expected_kind TString = KString"
| "expected_kind TInteger = KInteger"
| "expected_kind TFloat = KFloat"
| "expected_kind TBoolean = KBoolean"

text \<open>
  Modelled from the spec: \<open>bamboo/api.py\<close> (\<open>JsonApiData\<close> and its validation) is not
  among the sources. A scalar is checked by its runtime kind; with \<open>widen\<close> an integer is
  accepted for a float field, and nothing else is coerced.
\<close>

fun bind_scalar :: "bool \<Rightarrow> scalar_type \<Rightarrow> json \<Rightarrow> bound option" where
  "bind_scalar widen TString (JString s) = Some (VString s)"
| "bind_scalar widen TInteger (JInt i) = Some (VInt i)"
| "bind_scalar widen TFloat (JFloat m e) = Some (VFloat m e)"
| "bind_scalar widen TFloat (JInt i) = (if widen then Some (VFloat i 0) else None)"
| "bind_scalar widen TBoolean (JBool b) = Some (VBool b)"
| "bind_scalar widen t v = None"

fun nested_failure :: "string \<Rightarrow> validation_failure \<Rightarrow> validation_failure" where
  "nested_failure name (ValidationFailure k path) = ValidationFailure NestedFailure (name # path)"

fun first_failure :: "('e + 'a) list \<Rightarrow> 'e + 'a list" where
  "first_failure [] = Inr []"
| "first_failure (Inl e # rs) = Inl e"
| "first_failure (Inr x # rs) =
     (case first_failure rs of Inl e \<Rightarrow> Inl e | Inr xs \<Rightarrow> Inr (x # xs))"

text \<open>
  Modelled from the spec: steps 2 to 5 of section 4.4 in \<open>bamboo/api.py\<close>, which is
  not among the sources. Fields are bound in descriptor order and the first failure ends
  the call; a missing required key is a missing field; a missing or null optional field
  binds its default; a nested failure carries the outer field name in front of its path.
  Only the keys that the descriptor declares are looked up, so any other key of the input
  is ignored and does not appear in the bound object.
\<close>

fun bind_kind :: "bool \<Rightarrow> string \<Rightarrow> kind \<Rightarrow> json \<Rightarrow> validation_failure + bound"
and bind_field ::
  "bool \<Rightarrow> string \<Rightarrow> field_spec \<Rightarrow> json option \<Rightarrow> validation_failure + bound"
and bind_fields ::
  "bool \<Rightarrow> (string \<times> field_spec) list \<Rightarrow> (string \<times> json) list
   \<Rightarrow> validation_failure + (string \<times> bound) list"
and bind_object ::
  "bool \<Rightarrow> (string \<times> field_spec) list \<Rightarrow> json \<Rightarrow> validation_failure + bound"
where
  "bind_kind widen name (Scalar t) v =
     (case bind_scalar widen t v of
        None \<Rightarrow> Inl (ValidationFailure (TypeMismatch (expected_kind t) (kind_of v)) [name])
      | Some b \<Rightarrow> Inr b)"
| "bind_kind widen name (Nested d) v =
     (case bind_object widen d v of
        Inl e \<Rightarrow> Inl (nested_failure name e)
      | Inr b \<Rightarrow> Inr b)"
| "bind_kind widen name (ListOfNested d) v =
     (case v of
        JArray vs \<Rightarrow>
          (case first_failure (map (bind_object widen d) vs) of
             Inl e \<Rightarrow> Inl (nested_failure name e)
           | Inr bs \<Rightarrow> Inr (VList bs))
      | _ \<Rightarrow> Inl (ValidationFailure (TypeMismatch KArray (kind_of v)) [name]))"
| "bind_field widen name (Required k) None = Inl (ValidationFailure MissingField [name])"
| "bind_field widen name (Required k) (Some v) = bind_kind widen name k v"
| "bind_field widen name (Optional k dflt) None = Inr dflt"
| "bind_field widen name (Optional k dflt) (Some v) =
     (if v = JNull then Inr dflt else bind_kind widen name k v)"
| "bind_fields widen [] obj = Inr []"
| "bind_fields widen ((name, f) # rest) obj =
     (case bind_field widen name f (map_of obj name) of
        Inl e \<Rightarrow> Inl e
      | Inr b \<Rightarrow>
          (case bind_fields widen rest obj of
             Inl e \<Rightarrow> Inl e
           | Inr bs \<Rightarrow> Inr ((name, b) # bs)))"
| "bind_object widen d v =
     (case v of
        JObject obj \<Rightarrow>
          (case bind_fields widen d obj of
             Inl e \<Rightarrow> Inl e
           | Inr bs \<Rightarrow> Inr (VObject bs))
      | _ \<Rightarrow> Inl (ValidationFailure MalformedInput []))"

text \<open>
  Modelled from the spec: step 1 of section 4.4. The decoder of the wire format is the host
  library's; its result is the argument, \<open>None\<close> when the bytes do not parse.
\<close>

definition bind :: "bool \<Rightarrow> descriptor \<Rightarrow> json option \<Rightarrow> validation_failure + bound" where
  "bind widen d decoded =
     (case decoded of
        None \<Rightarrow> Inl (ValidationFailure MalformedInput [])
      | Some v \<Rightarrow> bind_object widen d v)"

subsection \<open>The fixtures of the binding tests\<close>

text \<open>
  The descriptor and the inputs of \<open>test_json_api_data.py\<close>. The test
  \<open>test_key_not_included\<close> expects a validation failure for \<open>data_key_not_included\<close>;
  the binding of section 4.4 ignores the key \<open>Age\<close> and binds the absent \<open>age\<close> to its
  default.
\<close>

text \<open>\<open>class TestUnionData(JsonApiData): name: str; age: Optional[int] = None\<close>\<close>

definition TestUnionData :: descriptor where
  "TestUnionData =
     [(''name'', Required (Scalar TString)), (''age'', Optional (Scalar TInteger) VNone)]"

definition data_union :: "json option" where
  "data_union = Some (JObject [(''name'', JString ''hogehoge''), (''age'', JNull)])"

definition data_invalid_type :: "json option" where
  "data_invalid_type = Some (JObject [(''name'', JInt 19), (''age'', JInt 20)])"


section \<open>Path splitting\<close>

lemma split_sep_nonempty: "split_sep sep s \<noteq> []"
  by (induction s) (auto split: list.splits)

lemma split_sep_examples:
  "split_sep CHR ''/'' '''' = ['''']"
  "split_sep CHR ''/'' ''a//b'' = [''a'', '''', ''b'']"
  "split_sep CHR ''/'' ''a/'' = [''a'', '''']"
  by simp_all

text \<open>
  C10: \<open>validate\<close> drops the first character of its input whatever it is, splits the
  rest on the separator and resolves by those segments: the first character never
  influences the result, a literal pattern equal to the split of the rest is found by the
  table lookup, and \<open>abc/d\<close> is resolved as \<open>("bc", "d")\<close>, not as \<open>("abc", "d")\<close>.
\<close>

theorem validate_drops_first_character:
  "path_segments (c # s) = split_sep CHR ''/'' s
   \<and> path_segments [] = [[]]
   \<and> validate r (c # s) = validate r (CHR ''/'' # s)
   \<and> (map_of (uri2endpoint r) (map Lit (split_sep CHR ''/'' s)) = Some endpoint
        \<longrightarrow> validate r (c # s) = Some endpoint)
   \<and> path_segments ''abc/d'' = [''bc'', ''d'']
   \<and> validate (run [Register [Lit ''bc'', Lit ''d''] (5::nat)]) ''abc/d'' = Some 5
   \<and> validate (run [Register [Lit ''abc'', Lit ''d''] (5::nat)]) ''abc/d'' = None
   \<and> validate (run [Register [Lit ''abc'', Lit ''d''] (5::nat)]) ''/abc/d'' = Some 5"
proof (intro conjI impI)
  show "path_segments (c # s) = split_sep CHR ''/'' s"
    by (simp add: path_segments_def)
  show "path_segments [] = [[]]"
    by (simp add: path_segments_def)
  show "validate r (c # s) = validate r (CHR ''/'' # s)"
    by (simp add: validate_def path_segments_def)
  show "validate r (c # s) = Some endpoint"
    if "map_of (uri2endpoint r) (map Lit (split_sep CHR ''/'' s)) = Some endpoint"
    using that by (simp add: validate_def path_segments_def)
  show "path_segments ''abc/d'' = [''bc'', ''d'']"
    by (simp add: path_segments_def)
  show "validate (run [Register [Lit ''bc'', Lit ''d''] (5::nat)]) ''abc/d'' = Some 5"
    by (simp add: run_def Router_init_def register_def is_flexible_uri_def validate_def
        path_segments_def)
  show "validate (run [Register [Lit ''abc'', Lit ''d''] (5::nat)]) ''abc/d'' = None"
    by (simp add: run_def Router_init_def register_def is_flexible_uri_def validate_def
        path_segments_def)
  show "validate (run [Register [Lit ''abc'', Lit ''d''] (5::nat)]) ''/abc/d'' = Some 5"
    by (simp add: run_def Router_init_def register_def is_flexible_uri_def validate_def
        path_segments_def)
qed

theorem validate_drops_first_character_witness:
  "validate (run [Register [Lit ''users'', Lit ''7''] (5::nat)]) ''Xusers/7'' = Some 5
   \<and> validate (run [Register [Lit ''users'', Lit ''7''] (5::nat)]) ''Xusers/7''
     = validate (run [Register [Lit ''users'', Lit ''7''] (5::nat)]) ''/users/7''"
proof -
  let ?r = "run [Register [Lit ''users'', Lit ''7''] (5::nat)]"
  have r: "?r = \<lparr>uri2endpoint = [([Lit ''users'', Lit ''7''], 5)], uris_flexible = []\<rparr>"
    by (simp add: run_def Router_init_def register_def is_flexible_uri_def)
  have h: "map_of (uri2endpoint ?r) (map Lit (split_sep CHR ''/'' ''users/7'')) = Some 5"
    by (simp add: r)
  note t = validate_drops_first_character [of "CHR ''X''" "''users/7''" ?r 5]
  from t have a: "validate ?r ''Xusers/7'' = validate ?r ''/users/7''"
    by (elim conjE)
  from t h have b: "validate ?r ''Xusers/7'' = Some 5"
    by (elim conjE) (erule mp)
  from a b show ?thesis by (intro conjI)
qed

section \<open>Registration\<close>

lemma detect_duplicated_iff:
  "detect_duplicated ks uri \<longleftrightarrow> (\<exists>k \<in> set ks. is_duplicated_uri k uri)"
  by (induction ks) auto

lemma locations_collide_refl: "locations_collide a a"
  by (cases a) auto

lemma locations_collide_sym: "locations_collide a b \<Longrightarrow> locations_collide b a"
  by (cases a; cases b) auto

lemma is_duplicated_uri_refl: "is_duplicated_uri uri uri"
  by (simp add: is_duplicated_uri_def list_all2_same locations_collide_refl)

lemma is_duplicated_uri_sym: "is_duplicated_uri a b \<Longrightarrow> is_duplicated_uri b a"
  unfolding is_duplicated_uri_def
  by (auto simp: list_all2_conv_all_nth intro: locations_collide_sym)

lemma register_raises:
  assumes "uri1 \<in> fst ` set (uri2endpoint r)" and "is_duplicated_uri uri1 uri2"
  shows "register r uri2 endpoint = (Inl DuplicatedUriRegisteredError, r)"
  using assms by (auto simp: register_def detect_duplicated_iff)

lemma register_ok:
  assumes "register r uri endpoint = (Inr u, r')"
  shows "uri \<notin> fst ` set (uri2endpoint r)"
    and "map_of (uri2endpoint r') = (map_of (uri2endpoint r))(uri \<mapsto> endpoint)"
    and "uris_flexible r' = uris_flexible r \<or> uris_flexible r' = uris_flexible r @ [uri]"
proof -
  from assms have nd: "\<not> detect_duplicated (map fst (uri2endpoint r)) uri"
    by (auto simp: register_def split: if_splits)
  then show "uri \<notin> fst ` set (uri2endpoint r)"
    using is_duplicated_uri_refl [of uri] by (auto simp: detect_duplicated_iff)
  from assms nd show "map_of (uri2endpoint r') = (map_of (uri2endpoint r))(uri \<mapsto> endpoint)"
    by (auto simp: register_def AList.update_conv')
  from assms nd
  show "uris_flexible r' = uris_flexible r \<or> uris_flexible r' = uris_flexible r @ [uri]"
    by (auto simp: register_def)
qed

text \<open>The three pattern lists of \<open>test_duplicated_uris\<close> raise, as the test asserts.\<close>

lemma test_duplicated_uris:
  "fst (register_all Router_init PATTERNS_1 (0::nat)) = Inl DuplicatedUriRegisteredError"
  "fst (register_all Router_init PATTERNS_2 (0::nat)) = Inl DuplicatedUriRegisteredError"
  "fst (register_all Router_init PATTERNS_3 (0::nat)) = Inl DuplicatedUriRegisteredError"
  by (simp_all add: PATTERNS_1_def PATTERNS_2_def PATTERNS_3_def Router_init_def register_def
      is_duplicated_uri_def is_flexible_uri_def)

text \<open>
  C3: when the new pattern is ambiguous with a registered one, \<open>register\<close> raises
  \<open>DuplicatedUriRegisteredError\<close> and the router is exactly as before: the table, the
  list of flexible patterns, and the result of \<open>validate\<close> on every path.
\<close>

theorem register_duplicated_atomic:
  assumes "uri1 \<in> fst ` set (uri2endpoint r)" and "is_duplicated_uri uri1 uri2"
  shows "fst (register r uri2 endpoint) = Inl DuplicatedUriRegisteredError
         \<and> snd (register r uri2 endpoint) = r
         \<and> uri2endpoint (snd (register r uri2 endpoint)) = uri2endpoint r
         \<and> uris_flexible (snd (register r uri2 endpoint)) = uris_flexible r
         \<and> validate (snd (register r uri2 endpoint)) path = validate r path"
  by (simp add: register_raises [OF assms])

theorem register_duplicated_atomic_witness:
  "fst (register (run [Register [Lit ''test'', Lit ''hoge'', Flex AnyStringLocation] (5::nat)])
          [Lit ''test'', Lit ''hoge'', Lit ''image''] 6)
     = Inl DuplicatedUriRegisteredError
   \<and> snd (register (run [Register [Lit ''test'', Lit ''hoge'', Flex AnyStringLocation] (5::nat)])
          [Lit ''test'', Lit ''hoge'', Lit ''image''] 6)
     = run [Register [Lit ''test'', Lit ''hoge'', Flex AnyStringLocation] 5]
   \<and> validate (snd (register
          (run [Register [Lit ''test'', Lit ''hoge'', Flex AnyStringLocation] (5::nat)])
          [Lit ''test'', Lit ''hoge'', Lit ''image''] 6)) ''/test/hoge/abc'' = Some 5"
proof -
  let ?p1 = "[Lit ''test'', Lit ''hoge'', Flex AnyStringLocation]"
  let ?p2 = "[Lit ''test'', Lit ''hoge'', Lit ''image'']"
  let ?r = "run [Register ?p1 (5::nat)]"
  have r: "?r = \<lparr>uri2endpoint = [(?p1, 5)], uris_flexible = [?p1]\<rparr>"
    by (simp add: run_def Router_init_def register_def is_flexible_uri_def)
  have h1: "?p1 \<in> fst ` set (uri2endpoint ?r)"
    by (simp add: r)
  have h2: "is_duplicated_uri ?p1 ?p2"
    by (simp add: is_duplicated_uri_def)
  have v: "validate ?r ''/test/hoge/abc'' = Some 5"
    by (simp add: r validate_def path_segments_def)
  from register_duplicated_atomic [OF h1 h2, of 6 "''/test/hoge/abc''"] v
  show ?thesis by simp
qed

section \<open>Resolution\<close>

lemma scan_flexible_result:
  "scan_flexible table uri fl = Some endpoint \<Longrightarrow> \<exists>k. map_of table k = Some endpoint"
  by (induction fl) (auto split: if_splits)

lemma scan_flexible_depth:
  "\<forall>k \<in> fst ` set table. length k \<noteq> length uri \<Longrightarrow> scan_flexible table uri fl = None"
proof (induction fl)
  case Nil
  then show ?case by simp
next
  case (Cons flexible rest)
  have "map_of table flexible = None" if "length flexible = length uri"
    using Cons.prems that by (force simp: map_of_eq_None_iff)
  with Cons show ?case by simp
qed

lemma scan_flexible_None:
  "scan_flexible table uri fl = None \<Longrightarrow> flexible \<in> set fl \<Longrightarrow> length flexible = length uri
   \<Longrightarrow> judge_locations uri flexible \<Longrightarrow> \<exists>f \<in> set fl. map_of table f = None"
  by (induction fl) (auto split: if_splits)

lemma scan_flexible_append:
  "scan_flexible table uri fl = Some endpoint
   \<Longrightarrow> scan_flexible table uri (fl @ extra) = Some endpoint"
  by (induction fl) (auto split: if_splits)

lemma scan_flexible_table:
  assumes "scan_flexible table uri fl = Some endpoint"
    and "\<And>k e. map_of table k = Some e \<Longrightarrow> map_of table' k = Some e"
  shows "scan_flexible table' uri fl = Some endpoint"
  using assms by (induction fl) (auto split: if_splits)

text \<open>
  The inner loop only ever breaks at a flexible position: a literal of the pattern is
  never compared in a way that can reject the candidate.
\<close>

lemma judge_locations_flexible_only:
  "judge_locations reqs flexs
   = list_all (\<lambda>(loc_req, loc_flex). case loc_flex of Flex f \<Rightarrow> is_valid f loc_req | Lit s \<Rightarrow> True)
       (zip reqs flexs)"
  by (induction reqs flexs rule: judge_locations.induct) (auto split: location.splits)

text \<open>
  C1 (evaluation of the code): with the single pattern \<open>("users", AnyStringLocation())\<close>
  registered, the path \<open>/items/42\<close> resolves to its handler although the literal
  \<open>users\<close> differs from the request segment \<open>items\<close>.
\<close>

theorem validate_accepts_differing_literal:
  "validate (run [Register [Lit ''users'', Flex AnyStringLocation] (1::nat)]) ''/items/42''
     = Some 1"
  by (simp add: run_def Router_init_def register_def is_flexible_uri_def validate_def
      path_segments_def)

text \<open>
  C4: \<open>validate\<close> returns either nothing or a handler stored in the table, and it returns
  nothing whenever no registered pattern has the segment count of the path.
\<close>

theorem validate_total:
  "(case validate r path of
      None \<Rightarrow> True
    | Some endpoint \<Rightarrow> \<exists>uri. map_of (uri2endpoint r) uri = Some endpoint)
   \<and> ((\<forall>uri \<in> fst ` set (uri2endpoint r). length uri \<noteq> length (path_segments path))
        \<longrightarrow> validate r path = None)"
proof (intro conjI impI)
  show "case validate r path of
      None \<Rightarrow> True
    | Some endpoint \<Rightarrow> \<exists>uri. map_of (uri2endpoint r) uri = Some endpoint"
    by (auto simp: validate_def Let_def split: option.splits dest: scan_flexible_result)
next
  assume h: "\<forall>uri \<in> fst ` set (uri2endpoint r). length uri \<noteq> length (path_segments path)"
  have "map_of (uri2endpoint r) (map Lit (path_segments path)) = None"
    using h by (force simp: map_of_eq_None_iff)
  then show "validate r path = None"
    using scan_flexible_depth [OF h] by (simp add: validate_def Let_def)
qed

theorem validate_total_witness:
  "validate (run [Register [Lit ''users'', Flex (AsciiDigitLocation 4)] (5::nat)]) ''/users/2024/x''
     = None"
proof -
  let ?r = "run [Register [Lit ''users'', Flex (AsciiDigitLocation 4)] (5::nat)]"
  have r: "?r = \<lparr>uri2endpoint = [([Lit ''users'', Flex (AsciiDigitLocation 4)], 5)],
                 uris_flexible = [[Lit ''users'', Flex (AsciiDigitLocation 4)]]\<rparr>"
    by (simp add: run_def Router_init_def register_def is_flexible_uri_def)
  have "\<forall>uri \<in> fst ` set (uri2endpoint ?r). length uri \<noteq> length (path_segments ''/users/2024/x'')"
    by (simp add: r path_segments_def)
  with validate_total [of ?r "''/users/2024/x''"] show ?thesis by blast
qed

text \<open>
  C6: a path whose segments are exactly a registered all-literal pattern resolves to the
  handler stored for that pattern; the result comes from the table lookup, whatever the
  list of flexible patterns holds.
\<close>

theorem validate_exact_literal:
  assumes "map_of (uri2endpoint r) (map Lit segs) = Some endpoint"
    and "path_segments path = segs"
  shows "validate r path = Some endpoint
         \<and> validate (r\<lparr>uris_flexible := fl\<rparr>) path = Some endpoint"
  using assms by (simp add: validate_def)

theorem validate_exact_literal_witness:
  "validate (run [Register [Lit ''test'', Lit ''hoge''] (7::nat)]) ''/test/hoge'' = Some 7"
proof -
  let ?r = "run [Register [Lit ''test'', Lit ''hoge''] (7::nat)]"
  have r: "?r = \<lparr>uri2endpoint = [([Lit ''test'', Lit ''hoge''], 7)], uris_flexible = []\<rparr>"
    by (simp add: run_def Router_init_def register_def is_flexible_uri_def)
  have h1: "map_of (uri2endpoint ?r) (map Lit [''test'', ''hoge'']) = Some 7"
    by (simp add: r)
  have h2: "path_segments ''/test/hoge'' = [''test'', ''hoge'']"
    by (simp add: path_segments_def)
  from validate_exact_literal [OF h1 h2] show ?thesis by simp
qed

section \<open>Registration and earlier results\<close>

text \<open>
  A successful registration keeps the result of every resolvable path, unless the new
  pattern is the literal tuple of that path's own segments.
\<close>

lemma register_monotone_except_literal:
  assumes reg: "register r uri endpoint' = (Inr u, r')"
    and res: "validate r path = Some endpoint"
    and new: "uri \<noteq> map Lit (path_segments path)"
  shows "validate r' path = Some endpoint"
proof -
  note ok = register_ok [OF reg]
  have keep: "map_of (uri2endpoint r') k = Some e" if "map_of (uri2endpoint r) k = Some e" for k e
  proof -
    from that have "k \<in> fst ` set (uri2endpoint r)"
      by (metis map_of_eq_None_iff option.distinct(1))
    with ok(1) have "k \<noteq> uri" by blast
    with that ok(2) show ?thesis by simp
  qed
  let ?segs = "path_segments path"
  show ?thesis
  proof (cases "map_of (uri2endpoint r) (map Lit ?segs)")
    case (Some e)
    with res have "e = endpoint" by (simp add: validate_def)
    with Some keep show ?thesis by (simp add: validate_def)
  next
    case None
    with res have sc: "scan_flexible (uri2endpoint r) ?segs (uris_flexible r) = Some endpoint"
      by (simp add: validate_def)
    from None new ok(2) have n': "map_of (uri2endpoint r') (map Lit ?segs) = None" by simp
    have "scan_flexible (uri2endpoint r') ?segs (uris_flexible r) = Some endpoint"
      using scan_flexible_table [OF sc] keep by blast
    then have "scan_flexible (uri2endpoint r') ?segs (uris_flexible r') = Some endpoint"
      using ok(3) by (auto simp: scan_flexible_append)
    with n' show ?thesis by (simp add: validate_def)
  qed
qed

text \<open>
  C5 (evaluation of the code): with \<open>("users", AnyStringLocation())\<close> registered for
  handler 1, the path \<open>/items/42\<close> resolves to handler 1; registering the literal pattern
  \<open>("items", "42")\<close> for handler 2 succeeds, and the same path then resolves to handler 2.
\<close>

theorem register_changes_resolved_path:
  "validate (run [Register [Lit ''users'', Flex AnyStringLocation] (1::nat)]) ''/items/42''
     = Some 1
   \<and> fst (register (run [Register [Lit ''users'', Flex AnyStringLocation] (1::nat)])
           [Lit ''items'', Lit ''42''] 2) = Inr ()
   \<and> validate (snd (register (run [Register [Lit ''users'', Flex AnyStringLocation] (1::nat)])
           [Lit ''items'', Lit ''42''] 2)) ''/items/42'' = Some 2"
  by (simp add: run_def Router_init_def register_def is_flexible_uri_def validate_def
      path_segments_def is_duplicated_uri_def)

section \<open>Searching by handler\<close>

lemma search_uris_set:
  "set (search_uris r endpoint) = {uri. (uri, endpoint) \<in> set (uri2endpoint r)}"
  by (force simp: search_uris_def)

lemma step_distinct:
  "distinct (map fst (uri2endpoint r)) \<Longrightarrow> distinct (map fst (uri2endpoint (step r c)))"
  by (cases c) (auto simp: register_def AList.distinct_update)

lemma foldl_step_distinct:
  "distinct (map fst (uri2endpoint r)) \<Longrightarrow> distinct (map fst (uri2endpoint (foldl step r cs)))"
  by (induction cs arbitrary: r) (auto simp: step_distinct)

text \<open>The keys of the table are distinct in every reachable router, as in any dict.\<close>

lemma run_distinct: "distinct (map fst (uri2endpoint (run calls)))"
  unfolding run_def by (rule foldl_step_distinct) (simp add: Router_init_def)

text \<open>
  C8: in a router whose table has distinct keys, a pattern is in the result of
  \<open>search_uris\<close> for a handler iff the table stores that handler for the pattern; the
  result has no repetition, and the call leaves the router as it is.
\<close>

theorem search_uris_exact:
  assumes "distinct (map fst (uri2endpoint r))"
  shows "(uri \<in> set (search_uris r endpoint) \<longleftrightarrow> map_of (uri2endpoint r) uri = Some endpoint)
         \<and> distinct (search_uris r endpoint)
         \<and> step r (SearchUris endpoint) = r"
proof (intro conjI)
  show "uri \<in> set (search_uris r endpoint) \<longleftrightarrow> map_of (uri2endpoint r) uri = Some endpoint"
    using assms by (simp add: search_uris_set)
  show "distinct (search_uris r endpoint)"
    unfolding search_uris_def using assms by (rule distinct_map_filter)
  show "step r (SearchUris endpoint) = r" by simp
qed

theorem search_uris_exact_witness:
  "[Lit ''a''] \<in> set (search_uris (run [Register [Lit ''a''] (5::nat), Register [Lit ''b''] 2]) 5)
   \<and> [Lit ''b''] \<notin> set (search_uris (run [Register [Lit ''a''] (5::nat), Register [Lit ''b''] 2]) 5)"
proof -
  let ?r = "run [Register [Lit ''a''] (5::nat), Register [Lit ''b''] 2]"
  have r: "?r = \<lparr>uri2endpoint = [([Lit ''a''], 5), ([Lit ''b''], 2)], uris_flexible = []\<rparr>"
    by (simp add: run_def Router_init_def register_def is_flexible_uri_def is_duplicated_uri_def)
  have d: "distinct (map fst (uri2endpoint ?r))"
    by (simp add: r)
  from search_uris_exact [OF d, of "[Lit ''a'']" 5] search_uris_exact [OF d, of "[Lit ''b'']" 5]
  show ?thesis by (simp add: r)
qed

section \<open>The invariant of the flexible list\<close>

lemma step_flexible_registered:
  "set (uris_flexible r) \<subseteq> fst ` set (uri2endpoint r)
   \<Longrightarrow> set (uris_flexible (step r c)) \<subseteq> fst ` set (uri2endpoint (step r c))"
  by (cases c) (auto simp: register_def AList.dom_update)

lemma foldl_step_flexible_registered:
  "set (uris_flexible r) \<subseteq> fst ` set (uri2endpoint r)
   \<Longrightarrow> set (uris_flexible (foldl step r cs)) \<subseteq> fst ` set (uri2endpoint (foldl step r cs))"
  by (induction cs arbitrary: r) (simp_all add: step_flexible_registered)

lemma run_flexible_registered:
  "set (uris_flexible (run calls)) \<subseteq> fst ` set (uri2endpoint (run calls))"
  unfolding run_def by (rule foldl_step_flexible_registered) (simp add: Router_init_def)

text \<open>
  C9: after any sequence of calls on a fresh router, every pattern of the flexible list
  is a key of the table, so the lookup for a flexible pattern finds a handler, and
  \<open>validate\<close> returns a handler whenever a flexible candidate passes the inner loop.
\<close>

theorem flexible_uris_registered:
  "set (uris_flexible (run calls)) \<subseteq> fst ` set (uri2endpoint (run calls))
   \<and> (\<forall>flexible \<in> set (uris_flexible (run calls)).
         \<exists>endpoint. map_of (uri2endpoint (run calls)) flexible = Some endpoint)
   \<and> (\<forall>flexible \<in> set (uris_flexible (run calls)).
         length flexible = length (path_segments path)
         \<and> judge_locations (path_segments path) flexible
         \<longrightarrow> (\<exists>endpoint. validate (run calls) path = Some endpoint))"
proof -
  let ?r = "run calls"
  have sub: "set (uris_flexible ?r) \<subseteq> fst ` set (uri2endpoint ?r)"
    by (rule run_flexible_registered)
  have found: "\<exists>endpoint. map_of (uri2endpoint ?r) flexible = Some endpoint"
    if "flexible \<in> set (uris_flexible ?r)" for flexible
  proof -
    from that sub have "flexible \<in> fst ` set (uri2endpoint ?r)" by blast
    then have "map_of (uri2endpoint ?r) flexible \<noteq> None"
      by (simp add: map_of_eq_None_iff)
    then show ?thesis by blast
  qed
  have hit: "\<exists>endpoint. validate ?r path = Some endpoint"
    if "flexible \<in> set (uris_flexible ?r)"
      and "length flexible = length (path_segments path)"
      and "judge_locations (path_segments path) flexible" for flexible
  proof (cases "validate ?r path")
    case None
    then have "scan_flexible (uri2endpoint ?r) (path_segments path) (uris_flexible ?r) = None"
      by (simp add: validate_def Let_def split: option.splits)
    from scan_flexible_None [OF this that]
    obtain f where "f \<in> set (uris_flexible ?r)" "map_of (uri2endpoint ?r) f = None" by blast
    with found show ?thesis by force
  next
    case (Some e)
    then show ?thesis by blast
  qed
  from sub found hit show ?thesis by blast
qed

theorem flexible_uris_registered_witness:
  "set (uris_flexible (run [Register [Lit ''users'', Flex (AsciiDigitLocation 4)] (5::nat)]))
     \<subseteq> fst ` set (uri2endpoint (run [Register [Lit ''users'', Flex (AsciiDigitLocation 4)] (5::nat)]))
   \<and> (\<exists>endpoint. validate (run [Register [Lit ''users'', Flex (AsciiDigitLocation 4)] (5::nat)])
         ''/users/2024'' = Some endpoint)"
proof -
  let ?r = "run [Register [Lit ''users'', Flex (AsciiDigitLocation 4)] (5::nat)]"
  let ?f = "[Lit ''users'', Flex (AsciiDigitLocation 4)]"
  have r: "?r = \<lparr>uri2endpoint = [(?f, 5)], uris_flexible = [?f]\<rparr>"
    by (simp add: run_def Router_init_def register_def is_flexible_uri_def)
  have m: "?f \<in> set (uris_flexible ?r)" by (simp add: r)
  have j: "length ?f = length (path_segments ''/users/2024'')
           \<and> judge_locations (path_segments ''/users/2024'') ?f"
    by (simp add: path_segments_def is_ascii_digit_def)
  from flexible_uris_registered [of "[Register ?f (5::nat)]" "''/users/2024''"] m j
  show ?thesis by blast
qed

section \<open>Binding\<close>

lemma bind_fields_append:
  "bind_fields widen (pre @ post) obj =
     (case bind_fields widen pre obj of
        Inl e \<Rightarrow> Inl e
      | Inr bs1 \<Rightarrow>
          (case bind_fields widen post obj of
             Inl e \<Rightarrow> Inl e
           | Inr bs2 \<Rightarrow> Inr (bs1 @ bs2)))"
  by (induction pre) (auto split: sum.splits)




text \<open>\<open>test_invalid_type\<close>: a number for \<open>name: str\<close> is a validation failure.\<close>

lemma test_invalid_type:
  "bind False TestUnionData data_invalid_type
     = Inl (ValidationFailure (TypeMismatch KString KInteger) [''name''])"
  by (simp add: TestUnionData_def data_invalid_type_def bind_def)



text \<open>
  C7: when a field is optional with a default, an input that omits its key or maps it
  to null binds whenever the other declared fields bind, and the bound object holds the
  declared default for the field.
\<close>

theorem optional_field_binds_default:
  assumes "d = pre @ (name, Optional k dflt) # post"
    and "map_of obj name = None \<or> map_of obj name = Some JNull"
    and "bind_fields widen pre obj = Inr bs1"
    and "bind_fields widen post obj = Inr bs2"
  shows "bind widen d (Some (JObject obj)) = Inr (VObject (bs1 @ (name, dflt) # bs2))"
proof -
  have "bind_field widen name (Optional k dflt) (map_of obj name) = Inr dflt"
    using assms(2) by auto
  then have "bind_fields widen d obj = Inr (bs1 @ (name, dflt) # bs2)"
    using assms(1,3,4) by (simp add: bind_fields_append)
  then show ?thesis
    by (simp add: bind_def)
qed

theorem optional_field_binds_default_witness:
  "bind False TestUnionData data_union
     = Inr (VObject [(''name'', VString ''hogehoge''), (''age'', VNone)])
   \<and> bind False TestUnionData (Some (JObject [(''name'', JString ''x'')]))
     = Inr (VObject [(''name'', VString ''x''), (''age'', VNone)])
   \<and> bind False [(''name'', Required (Scalar TString)), (''age'', Optional (Scalar TInteger) (VInt 7))]
       (Some (JObject [(''name'', JString ''x''), (''age'', JNull), (''extra'', JInt 1)]))
     = Inr (VObject [(''name'', VString ''x''), (''age'', VInt 7)])"
proof -
  let ?pre = "[(''name'', Required (Scalar TString))]"
  have d: "TestUnionData = ?pre @ (''age'', Optional (Scalar TInteger) VNone) # []"
    by (simp add: TestUnionData_def)
  let ?d7 = "[(''name'', Required (Scalar TString)), (''age'', Optional (Scalar TInteger) (VInt 7))]"
  have d7: "?d7 = ?pre @ (''age'', Optional (Scalar TInteger) (VInt 7)) # []"
    by simp
  let ?obj1 = "[(''name'', JString ''hogehoge''), (''age'', JNull)]"
  let ?obj2 = "[(''name'', JString ''x'')]"
  let ?obj3 = "[(''name'', JString ''x''), (''age'', JNull), (''extra'', JInt 1)]"
  have "bind False TestUnionData (Some (JObject ?obj1))
          = Inr (VObject ([(''name'', VString ''hogehoge'')] @ (''age'', VNone) # []))"
    by (rule optional_field_binds_default [OF d]) simp_all
  moreover have "bind False TestUnionData (Some (JObject ?obj2))
          = Inr (VObject ([(''name'', VString ''x'')] @ (''age'', VNone) # []))"
    by (rule optional_field_binds_default [OF d]) simp_all
  moreover have "bind False ?d7 (Some (JObject ?obj3))
          = Inr (VObject ([(''name'', VString ''x'')] @ (''age'', VInt 7) # []))"
    by (rule optional_field_binds_default [OF d7]) simp_all
  ultimately show ?thesis by (simp add: data_union_def)
qed

end
